theory Spec2Isabelle
  imports Main
begin

section \<open>The REST streaming iterator of \<^verbatim>\<open>google/api_core/rest_streaming.py\<close>\<close>

text \<open>
  The class \<^verbatim>\<open>ResponseIterator\<close> reads the text of an HTTP response fragment by
  fragment, cuts it into the top-level objects of a JSON array and hands each object to a
  message class. Python text is modelled as \<^typ>\<open>string\<close>: one \<^typ>\<open>char\<close> is one
  code point below 256. The scanner compares characters with seven ASCII characters and
  the six of \<^verbatim>\<open>string.whitespace\<close> only, and treats every other code point alike.

  A method that may raise returns the exception as a value next to the state the object
  is left in, so that what a raising call has already changed stays visible.
\<close>

subsection \<open>Exceptions\<close>

datatype error =
    ValueError string
  | IndexError
  | StopIteration
  | JSONDecodeError string

subsection \<open>The object\<close>

text \<open>
  The fields of \<^verbatim>\<open>ResponseIterator\<close>. The field \<open>response_itr\<close> stands for the
  generator \<^verbatim>\<open>response.iter_content(decode_unicode=True)\<close>: the fragments it has not
  yielded yet, in order; pulling from the empty list raises \<^verbatim>\<open>StopIteration\<close>.
  The response object and the message class belong to other libraries and are
  parameters of the methods that call them.
\<close>

record ResponseIterator =
  response_itr :: "string list"
  ready_objs :: "string list"
  obj :: string
  level :: int
  in_string :: bool

definition init :: "string list \<Rightarrow> ResponseIterator" where
  "init fragments =
     \<lparr>response_itr = fragments, ready_objs = [], obj = '''', level = 0, in_string = False\<rparr>"

text \<open>\<^verbatim>\<open>cancel\<close> only calls \<^verbatim>\<open>self._response.close()\<close>. What the content generator
  still yields once the response is closed is decided by the HTTP library, so it is the
  parameter \<open>close\<close>.\<close>

definition cancel :: "(string list \<Rightarrow> string list) \<Rightarrow> ResponseIterator \<Rightarrow> ResponseIterator" where
  "cancel close it = it\<lparr>response_itr := close (response_itr it)\<rparr>"

subsection \<open>The scanner\<close>

text \<open>\<^verbatim>\<open>string.whitespace\<close> is space, tab, line feed, carriage return, vertical tab and
  form feed.\<close>

definition whitespace :: string where
  "whitespace = [CHR '' '', CHR 0x09, CHR 0x0A, CHR 0x0D, CHR 0x0B, CHR 0x0C]"

definition dquote :: char where
  "dquote = CHR 0x22"

text \<open>The body of the \<^verbatim>\<open>for char in chunk\<close> loop, branch by branch.\<close>

definition process_char :: "char \<Rightarrow> ResponseIterator \<Rightarrow> ResponseIterator" where
  "process_char c it =
     (if c = CHR ''{'' then
        (let it1 = (if level it = 1 then it\<lparr>obj := ''''\<rparr> else it);
             it2 = (if \<not> in_string it1 then it1\<lparr>level := level it1 + 1\<rparr> else it1)
         in it2\<lparr>obj := obj it2 @ [c]\<rparr>)
      else if c = dquote then
        (let it1 = it\<lparr>in_string := \<not> in_string it\<rparr>
         in it1\<lparr>obj := obj it1 @ [c]\<rparr>)
      else if c = CHR ''}'' then
        (let it1 = it\<lparr>obj := obj it @ [c]\<rparr>;
             it2 = (if \<not> in_string it1 then it1\<lparr>level := level it1 - 1\<rparr> else it1)
         in if \<not> in_string it2 \<and> level it2 = 1
            then it2\<lparr>ready_objs := ready_objs it2 @ [obj it2]\<rparr> else it2)
      else if c \<in> set whitespace then
        (if in_string it then it\<lparr>obj := obj it @ [c]\<rparr> else it)
      else if c = CHR ''['' then it\<lparr>level := level it + 1\<rparr>
      else if c = CHR '']'' then it\<lparr>level := level it - 1\<rparr>
      else it\<lparr>obj := obj it @ [c]\<rparr>)"

text \<open>The loop over the characters of a fragment, in order.\<close>

definition scan :: "string \<Rightarrow> ResponseIterator \<Rightarrow> ResponseIterator" where
  "scan chunk it = fold process_char chunk it"

text \<open>The test that opens \<^verbatim>\<open>_process_chunk\<close>. At level 0 it reads \<^verbatim>\<open>chunk[0]\<close>, which
  raises \<^verbatim>\<open>IndexError\<close> on the empty fragment.\<close>

definition check_array :: "ResponseIterator \<Rightarrow> string \<Rightarrow> error option" where
  "check_array it chunk =
     (if level it = 0 then
        (case chunk of
           [] \<Rightarrow> Some IndexError
         | c # _ \<Rightarrow>
             if c \<noteq> CHR ''[''
             then Some (ValueError (''Can only parse array of JSON objects, instead got '' @ chunk))
             else None)
      else None)"

definition process_chunk :: "ResponseIterator \<Rightarrow> string \<Rightarrow> error option \<times> ResponseIterator" where
  "process_chunk it chunk =
     (case check_array it chunk of
        Some e \<Rightarrow> (Some e, it)
      | None \<Rightarrow> (None, scan chunk it))"

text \<open>Feeding a list of fragments to the scanner one after the other, stopping at the
  first exception.\<close>

fun process_chunks :: "ResponseIterator \<Rightarrow> string list \<Rightarrow> error option \<times> ResponseIterator" where
  "process_chunks it [] = (None, it)"
| "process_chunks it (chunk # chunks) =
     (case process_chunk it chunk of
        (Some e, it') \<Rightarrow> (Some e, it')
      | (None, it') \<Rightarrow> process_chunks it' chunks)"

subsection \<open>The iterator protocol\<close>

text \<open>The \<^verbatim>\<open>while not self._ready_objs\<close> loop of \<^verbatim>\<open>__next__\<close>: it pulls fragments
  until the queue holds an object, the generator is exhausted or the scanner raises.
  The first argument is the content generator, which the loop advances.\<close>

fun fill :: "string list \<Rightarrow> ResponseIterator \<Rightarrow> error option \<times> ResponseIterator" where
  "fill [] it =
     (if ready_objs it \<noteq> [] then (None, it\<lparr>response_itr := []\<rparr>)
      else (Some StopIteration, it\<lparr>response_itr := []\<rparr>))"
| "fill (chunk # chunks) it =
     (if ready_objs it \<noteq> [] then (None, it\<lparr>response_itr := chunk # chunks\<rparr>)
      else (case process_chunk (it\<lparr>response_itr := chunks\<rparr>) chunk of
              (Some e, it') \<Rightarrow> (Some e, it')
            | (None, it') \<Rightarrow> fill chunks it'))"

text \<open>\<^verbatim>\<open>_grab\<close> takes the oldest object off the queue, wraps it in double quotes, parses
  that with \<^verbatim>\<open>json.loads\<close> and passes the result to \<^verbatim>\<open>from_json\<close>. The two library
  functions are the parameters \<open>loads\<close> and \<open>from_json\<close>.\<close>

definition decode :: "(string \<Rightarrow> error + 'j) \<Rightarrow> ('j \<Rightarrow> error + 'v) \<Rightarrow> string \<Rightarrow> error + 'v" where
  "decode loads from_json ob =
     (case loads ([dquote] @ ob @ [dquote]) of
        Inl e \<Rightarrow> Inl e
      | Inr s \<Rightarrow> from_json s)"

definition grab ::
  "(string \<Rightarrow> error + 'j) \<Rightarrow> ('j \<Rightarrow> error + 'v) \<Rightarrow> ResponseIterator
     \<Rightarrow> (error + 'v) \<times> ResponseIterator" where
  "grab loads from_json it =
     (case ready_objs it of
        [] \<Rightarrow> (Inl IndexError, it)
      | ob # rest \<Rightarrow> (decode loads from_json ob, it\<lparr>ready_objs := rest\<rparr>))"

definition iter_next ::
  "(string \<Rightarrow> error + 'j) \<Rightarrow> ('j \<Rightarrow> error + 'v) \<Rightarrow> ResponseIterator
     \<Rightarrow> (error + 'v) \<times> ResponseIterator" where
  "iter_next loads from_json it =
     (case fill (response_itr it) it of
        (Some e, it') \<Rightarrow> (Inl e, it')
      | (None, it') \<Rightarrow> grab loads from_json it')"

text \<open>A caller that calls \<^verbatim>\<open>next\<close> a given number of times, keeping every result,
  exceptions included.\<close>

fun next_calls ::
  "(string \<Rightarrow> error + 'j) \<Rightarrow> ('j \<Rightarrow> error + 'v) \<Rightarrow> nat \<Rightarrow> ResponseIterator
     \<Rightarrow> (error + 'v) list \<times> ResponseIterator" where
  "next_calls loads from_json 0 it = ([], it)"
| "next_calls loads from_json (Suc n) it =
     (case iter_next loads from_json it of
        (r, it') \<Rightarrow>
          (case next_calls loads from_json n it' of
             (rs, it'') \<Rightarrow> (r # rs, it'')))"

text \<open>The depth after each character of a text, and the test of line 74 that decides
  whether a character completes an object.\<close>

fun depths :: "string \<Rightarrow> ResponseIterator \<Rightarrow> int list" where
  "depths [] it = []"
| "depths (c # cs) it = level (process_char c it) # depths cs (process_char c it)"

definition completes :: "char \<Rightarrow> ResponseIterator \<Rightarrow> bool" where
  "completes c it = (c = CHR ''}'' \<and> \<not> in_string it \<and> level it - 1 = 1)"

definition single_chars :: "string \<Rightarrow> string list" where
  "single_chars text = map (\<lambda>c. [c]) text"

subsection \<open>A model of \<^verbatim>\<open>json.loads\<close> on string literals\<close>

text \<open>
  \<^verbatim>\<open>_grab\<close> calls \<^verbatim>\<open>json.loads\<close> of the Python standard library on a text that it has
  wrapped in double quotes, so the document is always read as one JSON string literal.
  The model follows \<^verbatim>\<open>json.decoder.scanstring\<close> in strict mode, as CPython's default
  scanner answers (an escape of four hex digits must be followed by at least one more
  character), and the check for trailing data of \<^verbatim>\<open>JSONDecoder.decode\<close>. The result is the decoded string as a list
  of code points, since an escape can name any code point. A document that does not
  start with a string literal is outside this model (the iterator never passes one) and
  is answered like a document with no value. Positions are left out of the messages.
\<close>

definition backslash :: char where
  "backslash = CHR 0x5C"

definition hexdigit :: "char \<Rightarrow> nat option" where
  "hexdigit c =
     (let n = (of_char c :: nat)
      in if 48 \<le> n \<and> n \<le> 57 then Some (n - 48)
         else if 97 \<le> n \<and> n \<le> 102 then Some (n - 87)
         else if 65 \<le> n \<and> n \<le> 70 then Some (n - 55)
         else None)"

definition decode_uXXXX :: "string \<Rightarrow> nat option" where
  "decode_uXXXX s =
     (case map hexdigit (take 4 s) of
        [Some a, Some b, Some c, Some d] \<Rightarrow> Some (((a * 16 + b) * 16 + c) * 16 + d)
      | _ \<Rightarrow> None)"

definition backslash_char :: "char \<Rightarrow> nat option" where
  "backslash_char e =
     (if e = dquote then Some 0x22
      else if e = backslash then Some 0x5C
      else if e = CHR ''/'' then Some 0x2F
      else if e = CHR ''b'' then Some 0x08
      else if e = CHR ''f'' then Some 0x0C
      else if e = CHR ''n'' then Some 0x0A
      else if e = CHR ''r'' then Some 0x0D
      else if e = CHR ''t'' then Some 0x09
      else None)"

definition invalid_escape :: error where
  "invalid_escape = JSONDecodeError (''Invalid '' @ [backslash] @ ''escape'')"

definition invalid_uXXXX :: error where
  "invalid_uXXXX = JSONDecodeError (''Invalid '' @ [backslash] @ ''uXXXX escape'')"

text \<open>The text after the opening quote and the code points read so far; the result is
  the decoded string and the text after the closing quote.\<close>

function scanstring :: "string \<Rightarrow> nat list \<Rightarrow> error + (nat list \<times> string)" where
  "scanstring [] acc = Inl (JSONDecodeError ''Unterminated string starting at'')"
| "scanstring (c # cs) acc =
     (if c = dquote then Inr (acc, cs)
      else if c = backslash then
        (case cs of
           [] \<Rightarrow> Inl (JSONDecodeError ''Unterminated string starting at'')
         | e # cs' \<Rightarrow>
             if e = CHR ''u'' then
               (case decode_uXXXX cs' of
                  None \<Rightarrow> Inl invalid_uXXXX
                | Some uni \<Rightarrow>
                    if drop 4 cs' = [] then Inl invalid_uXXXX
                    else if 0xD800 \<le> uni \<and> uni \<le> 0xDBFF
                       \<and> take 2 (drop 4 cs') = [backslash, CHR ''u''] \<and> drop 10 cs' \<noteq> []
                    then
                      (case decode_uXXXX (drop 6 cs') of
                         None \<Rightarrow> Inl invalid_uXXXX
                       | Some uni2 \<Rightarrow>
                           if 0xDC00 \<le> uni2 \<and> uni2 \<le> 0xDFFF
                           then scanstring (drop 10 cs')
                                  (acc @ [0x10000 + ((uni - 0xD800) * 1024 + (uni2 - 0xDC00))])
                           else scanstring (drop 4 cs') (acc @ [uni]))
                    else scanstring (drop 4 cs') (acc @ [uni]))
             else
               (case backslash_char e of
                  None \<Rightarrow> Inl invalid_escape
                | Some ch \<Rightarrow> scanstring cs' (acc @ [ch])))
      else if (of_char c :: nat) < 0x20 then
        Inl (JSONDecodeError ''Invalid control character at'')
      else scanstring cs (acc @ [of_char c]))"
  by pat_completeness auto
termination
  by (relation "measure (\<lambda>(s, acc). length s)") auto

definition json_space :: "char \<Rightarrow> bool" where
  "json_space c = (c = CHR '' '' \<or> c = CHR 0x09 \<or> c = CHR 0x0A \<or> c = CHR 0x0D)"

definition json_loads :: "string \<Rightarrow> error + nat list" where
  "json_loads s =
     (case dropWhile json_space s of
        [] \<Rightarrow> Inl (JSONDecodeError ''Expecting value'')
      | c # cs \<Rightarrow>
          if c = dquote then
            (case scanstring cs [] of
               Inl e \<Rightarrow> Inl e
             | Inr (v, rest) \<Rightarrow>
                 if dropWhile json_space rest = [] then Inr v
                 else Inl (JSONDecodeError ''Extra data''))
          else Inl (JSONDecodeError ''Expecting value''))"

text \<open>A message class whose \<^verbatim>\<open>from_json\<close> accepts every text and returns it.\<close>

definition accept_all :: "nat list \<Rightarrow> error + nat list" where
  "accept_all s = Inr s"

text \<open>A closed response whose content generator yields nothing more.\<close>

definition close_ends :: "string list \<Rightarrow> string list" where
  "close_ends pending = []"

subsection \<open>Streams the scanner is written for\<close>

text \<open>
  The shape of an object text in which the scanner's counting finds the object's own
  closing brace: a sequence of spans, each one a character that is neither a brace, a
  bracket, a double quote nor whitespace, a whitespace character, a string literal, or a
  nested pair of braces around such a sequence. A string literal holds no double quote
  and no bracket; it may hold braces and whitespace.
\<close>

datatype span = Other char | Blank char | Literal string | Braces "span list"

fun text_of :: "span \<Rightarrow> string" where
  "text_of (Other c) = [c]"
| "text_of (Blank c) = [c]"
| "text_of (Literal s) = [dquote] @ s @ [dquote]"
| "text_of (Braces ps) = [CHR ''{''] @ concat (map text_of ps) @ [CHR ''}'']"

text \<open>The same text without the whitespace that stands outside string literals.\<close>

fun queued_of :: "span \<Rightarrow> string" where
  "queued_of (Other c) = [c]"
| "queued_of (Blank c) = []"
| "queued_of (Literal s) = [dquote] @ s @ [dquote]"
| "queued_of (Braces ps) = [CHR ''{''] @ concat (map queued_of ps) @ [CHR ''}'']"

definition plain_char :: "char \<Rightarrow> bool" where
  "plain_char c =
     (c \<noteq> CHR ''{'' \<and> c \<noteq> CHR ''}'' \<and> c \<noteq> CHR ''['' \<and> c \<noteq> CHR '']'' \<and> c \<noteq> dquote
      \<and> c \<notin> set whitespace)"

definition literal_char :: "char \<Rightarrow> bool" where
  "literal_char c = (c \<noteq> dquote \<and> c \<noteq> CHR ''['' \<and> c \<noteq> CHR '']'')"

fun plain_span :: "span \<Rightarrow> bool" where
  "plain_span (Other c) = plain_char c"
| "plain_span (Blank c) = (c \<in> set whitespace)"
| "plain_span (Literal s) = list_all literal_char s"
| "plain_span (Braces ps) = list_all plain_span ps"

text \<open>An array element is the text before it (commas and whitespace) and the spans
  between its braces; the array is an opening bracket, the elements, commas and
  whitespace again, and the closing bracket.\<close>

definition gap_char :: "char \<Rightarrow> bool" where
  "gap_char c = (c = CHR '','' \<or> c \<in> set whitespace)"

definition object_text :: "string \<times> span list \<Rightarrow> string" where
  "object_text item = text_of (Braces (snd item))"

definition queued_text :: "string \<times> span list \<Rightarrow> string" where
  "queued_text item = queued_of (Braces (snd item))"

definition item_text :: "string \<times> span list \<Rightarrow> string" where
  "item_text item = fst item @ object_text item"

definition plain_item :: "string \<times> span list \<Rightarrow> bool" where
  "plain_item item = (list_all gap_char (fst item) \<and> list_all plain_span (snd item))"

definition array_text :: "(string \<times> span list) list \<Rightarrow> string \<Rightarrow> string" where
  "array_text items trail =
     [CHR ''[''] @ concat (map item_text items) @ trail @ [CHR '']'']"

subsection \<open>Example streams\<close>

text \<open>The two fragments \<^verbatim>\<open>[{"a":1},\<close> and \<^verbatim>\<open>{"a":2}]\<close>, and their two elements.\<close>

definition plain_fragments :: "string list" where
  "plain_fragments =
     [''[{'' @ [dquote] @ ''a'' @ [dquote] @ '':1},'', ''{'' @ [dquote] @ ''a'' @ [dquote] @ '':2}]'']"

definition plain_items :: "(string \<times> span list) list" where
  "plain_items =
     [('''', [Literal ''a'', Other CHR '':'', Other CHR ''1'']),
      ('','', [Literal ''a'', Other CHR '':'', Other CHR ''2''])]"


definition escaped_fragments :: "string list" where
  "escaped_fragments =
     [''[{'' @ [backslash, dquote] @ ''a'' @ [backslash, dquote] @ '': 1},'',
      '' {'' @ [backslash, dquote] @ ''a'' @ [backslash, dquote] @ '': 2}]'']"

definition escaped_items :: "(string \<times> span list) list" where
  "escaped_items =
     [('''', [Other backslash, Literal (''a'' @ [backslash]), Other CHR '':'', Blank CHR '' '',
            Other CHR ''1'']),
      ('', '', [Other backslash, Literal (''a'' @ [backslash]), Other CHR '':'', Blank CHR '' '',
            Other CHR ''2''])]"

section \<open>Properties of the scanner\<close>

subsection \<open>Scanning character by character\<close>

lemma scan_Nil: "scan [] it = it"
  by (simp add: scan_def)

lemma scan_Cons: "scan (c # cs) it = scan cs (process_char c it)"
  by (simp add: scan_def)

lemma scan_append: "scan (xs @ ys) it = scan ys (scan xs it)"
  by (simp add: scan_def)

lemma process_char_response_itr:
  "process_char c (it\<lparr>response_itr := r\<rparr>) = (process_char c it)\<lparr>response_itr := r\<rparr>"
  by (simp add: process_char_def Let_def)

lemma process_char_prepend:
  "process_char c (it\<lparr>ready_objs := q @ ready_objs it\<rparr>)
     = (process_char c it)\<lparr>ready_objs := q @ ready_objs (process_char c it)\<rparr>"
  by (simp add: process_char_def Let_def)

lemma scan_response_itr:
  "scan cs (it\<lparr>response_itr := r\<rparr>) = (scan cs it)\<lparr>response_itr := r\<rparr>"
  by (induction cs arbitrary: it) (simp_all add: scan_Nil scan_Cons process_char_response_itr)

lemma scan_prepend:
  "scan cs (it\<lparr>ready_objs := q @ ready_objs it\<rparr>)
     = (scan cs it)\<lparr>ready_objs := q @ ready_objs (scan cs it)\<rparr>"
proof (induction cs arbitrary: it)
  case Nil
  show ?case by (simp add: scan_Nil)
next
  case (Cons c cs)
  show ?case
    by (simp only: scan_Cons process_char_prepend Cons.IH)
qed

lemma check_array_updates:
  "check_array (it\<lparr>ready_objs := q\<rparr>) chunk = check_array it chunk"
  "check_array (it\<lparr>response_itr := r\<rparr>) chunk = check_array it chunk"
  by (simp_all add: check_array_def)

lemma depths_append: "depths (xs @ ys) it = depths xs it @ depths ys (scan xs it)"
  by (induction xs arbitrary: it) (simp_all add: scan_Nil scan_Cons)

lemma length_depths: "length (depths cs it) = length cs"
  by (induction cs arbitrary: it) simp_all

lemma last_depths: "cs \<noteq> [] \<Longrightarrow> last (depths cs it) = level (scan cs it)"
proof (induction cs arbitrary: it)
  case Nil
  then show ?case by simp
next
  case (Cons c cs)
  show ?case
  proof (cases cs)
    case Nil
    then show ?thesis by (simp add: scan_Nil scan_Cons)
  next
    case (Cons d ds)
    with Cons.IH [of "process_char c it"] show ?thesis
      by (simp add: scan_Cons)
  qed
qed

lemma depths_nth: "n < length cs \<Longrightarrow> depths cs it ! n = level (scan (take (Suc n) cs) it)"
proof (induction cs arbitrary: it n)
  case Nil
  then show ?case by simp
next
  case (Cons c cs)
  then show ?case by (cases n) (simp_all add: scan_Nil scan_Cons)
qed

subsection \<open>Fragment boundaries\<close>

text \<open>As long as the depth is not 0 where a fragment starts (or the fragment starts with
  the opening bracket), feeding fragments is scanning their concatenation.\<close>

lemma feed_eq_scan:
  assumes "[] \<notin> set frags"
    and "level it = 0 \<longrightarrow> frags \<noteq> [] \<longrightarrow> hd (concat frags) = CHR ''[''"
    and "\<forall>l \<in> set (butlast (depths (concat frags) it)). l \<noteq> 0"
  shows "process_chunks it frags = (None, scan (concat frags) it)"
  using assms
proof (induction frags arbitrary: it)
  case Nil
  show ?case by (simp add: scan_Nil)
next
  case (Cons f fs)
  from Cons.prems(1) have f: "f \<noteq> []" and fs: "[] \<notin> set fs" by auto
  from f Cons.prems(2) have chk: "check_array it f = None"
    by (cases f) (auto simp: check_array_def)
  have step: "process_chunk it f = (None, scan f it)"
    by (simp add: process_chunk_def chk)
  show ?case
  proof (cases fs)
    case Nil
    then show ?thesis by (simp add: step)
  next
    case (Cons g gs)
    with fs have ne: "concat fs \<noteq> []" by auto
    then have dne: "depths (concat fs) (scan f it) \<noteq> []"
      using length_depths [of "concat fs" "scan f it"] by auto
    have bl: "butlast (depths (f @ concat fs) it)
                = depths f it @ butlast (depths (concat fs) (scan f it))"
      by (simp add: depths_append butlast_append dne)
    from f have "depths f it \<noteq> []" using length_depths [of f it] by auto
    then have "last (depths f it) \<in> set (depths f it)" by simp
    with Cons.prems(3) bl f have lv: "level (scan f it) \<noteq> 0"
      by (auto simp: last_depths)
    from Cons.prems(3) bl
    have rest: "\<forall>l \<in> set (butlast (depths (concat fs) (scan f it))). l \<noteq> 0"
      by auto
    have "process_chunks (scan f it) fs = (None, scan (concat fs) (scan f it))"
      by (rule Cons.IH [OF fs _ rest]) (simp add: lv)
    then show ?thesis by (simp add: step scan_append)
  qed
qed

lemma concat_single_chars: "concat (single_chars cs) = cs"
  by (induction cs) (simp_all add: single_chars_def)

lemma single_chars_nonempty: "[] \<notin> set (single_chars cs)"
  by (auto simp add: single_chars_def)


lemma process_chunk_response_itr:
  "process_chunk (it\<lparr>response_itr := r\<rparr>) chunk
     = (fst (process_chunk it chunk), (snd (process_chunk it chunk))\<lparr>response_itr := r\<rparr>)"
  by (simp add: process_chunk_def check_array_updates scan_response_itr split: option.splits)

lemma process_chunk_prepend:
  "process_chunk (it\<lparr>ready_objs := q @ ready_objs it\<rparr>) chunk
     = (fst (process_chunk it chunk),
        (snd (process_chunk it chunk))\<lparr>ready_objs := q @ ready_objs (snd (process_chunk it chunk))\<rparr>)"
  by (simp add: process_chunk_def check_array_updates scan_prepend split: option.splits)

lemma process_chunks_prepend:
  "process_chunks (it\<lparr>ready_objs := q @ ready_objs it\<rparr>) frags
     = (fst (process_chunks it frags),
        (snd (process_chunks it frags))\<lparr>ready_objs := q @ ready_objs (snd (process_chunks it frags))\<rparr>)"
proof (induction frags arbitrary: it)
  case Nil
  show ?case by simp
next
  case (Cons f fs)
  obtain r it' where p: "process_chunk it f = (r, it')" by (cases "process_chunk it f")
  show ?case
  proof (cases r)
    case None
    with p Cons.IH [of it'] show ?thesis
      by (simp add: process_chunk_prepend)
  next
    case (Some e)
    with p show ?thesis by (simp add: process_chunk_prepend)
  qed
qed

subsection \<open>Pulling on demand\<close>

text \<open>\<^verbatim>\<open>__next__\<close> reads a fragment only when the queue is empty; the objects it
  returns are nevertheless those that scanning all fragments at once would queue.\<close>

lemma fill_nonempty: "ready_objs it \<noteq> [] \<Longrightarrow> fill frags it = (None, it\<lparr>response_itr := frags\<rparr>)"
  by (cases frags) simp_all

lemma iter_next_queued:
  "ready_objs it = ob # rest \<Longrightarrow>
     iter_next loads from_json it = (decode loads from_json ob, it\<lparr>ready_objs := rest\<rparr>)"
  by (simp add: iter_next_def fill_nonempty grab_def)

lemma iter_next_exhausted:
  "ready_objs it = [] \<Longrightarrow> response_itr it = [] \<Longrightarrow>
     iter_next loads from_json it = (Inl StopIteration, it)"
  by (simp add: iter_next_def)

lemma iter_next_pull:
  assumes "ready_objs it = []" and "response_itr it = f # fs"
    and "process_chunk it f = (None, it')"
  shows "iter_next loads from_json it = iter_next loads from_json (it'\<lparr>response_itr := fs\<rparr>)"
  using assms by (simp add: iter_next_def process_chunk_response_itr)

lemma fst_next_calls_Suc:
  "fst (next_calls loads from_json (Suc n) it)
     = fst (iter_next loads from_json it)
       # fst (next_calls loads from_json n (snd (iter_next loads from_json it)))"
  by (simp split: prod.splits)

lemma process_chunks_response_itr:
  "process_chunks (it\<lparr>response_itr := r\<rparr>) frags
     = (fst (process_chunks it frags), (snd (process_chunks it frags))\<lparr>response_itr := r\<rparr>)"
proof (induction frags arbitrary: it)
  case Nil
  show ?case by simp
next
  case (Cons f fs)
  obtain e it' where p: "process_chunk it f = (e, it')" by (cases "process_chunk it f")
  show ?case
  proof (cases e)
    case None
    with p Cons.IH [of it'] show ?thesis
      by (simp add: process_chunk_response_itr)
  next
    case (Some e)
    with p show ?thesis by (simp add: process_chunk_response_itr)
  qed
qed

lemma next_calls_drain:
  "ready_objs it = q \<Longrightarrow>
   fst (next_calls loads from_json (length q + m) it)
     = map (decode loads from_json) q @ fst (next_calls loads from_json m (it\<lparr>ready_objs := []\<rparr>))"
proof (induction q arbitrary: it)
  case Nil
  then have "it\<lparr>ready_objs := []\<rparr> = it" by simp
  then show ?case by simp
next
  case (Cons ob rest)
  have "fst (next_calls loads from_json (Suc (length rest + m)) it)
          = decode loads from_json ob
            # fst (next_calls loads from_json (length rest + m) (it\<lparr>ready_objs := rest\<rparr>))"
    by (simp only: fst_next_calls_Suc iter_next_queued [OF Cons.prems] fst_conv snd_conv)
  also have "fst (next_calls loads from_json (length rest + m) (it\<lparr>ready_objs := rest\<rparr>))
          = map (decode loads from_json) rest
            @ fst (next_calls loads from_json m (it\<lparr>ready_objs := rest, ready_objs := []\<rparr>))"
    by (rule Cons.IH) simp
  finally show ?case by simp
qed

lemma next_calls_lazy:
  assumes "process_chunks (it\<lparr>ready_objs := []\<rparr>) frags = (None, E)" and "response_itr it = frags"
  shows "fst (next_calls loads from_json (Suc (length (ready_objs it) + length (ready_objs E))) it)
           = map (decode loads from_json) (ready_objs it @ ready_objs E) @ [Inl StopIteration]"
  using assms
proof (induction frags arbitrary: it E)
  case Nil
  let ?it0 = "it\<lparr>ready_objs := []\<rparr>"
  from Nil have E: "E = ?it0" by simp
  have "fst (next_calls loads from_json (length (ready_objs it) + 1) it)
          = map (decode loads from_json) (ready_objs it) @ fst (next_calls loads from_json 1 ?it0)"
    by (rule next_calls_drain) simp
  moreover have "iter_next loads from_json ?it0 = (Inl StopIteration, ?it0)"
    using Nil.prems(2) by (simp add: iter_next_exhausted)
  ultimately show ?case by (simp add: E)
next
  case (Cons f fs)
  let ?it0 = "it\<lparr>ready_objs := []\<rparr>"
  obtain r it1 where p: "process_chunk ?it0 f = (r, it1)" by (cases "process_chunk ?it0 f")
  with Cons.prems(1) have r: "r = None" and rest: "process_chunks it1 fs = (None, E)"
    by (auto split: option.splits)
  let ?it1 = "it1\<lparr>response_itr := fs\<rparr>"
  let ?E' = "snd (process_chunks (it1\<lparr>ready_objs := []\<rparr>) fs)"
  have "process_chunks ((it1\<lparr>ready_objs := []\<rparr>)\<lparr>ready_objs := ready_objs it1 @ ready_objs (it1\<lparr>ready_objs := []\<rparr>)\<rparr>) fs
          = (fst (process_chunks (it1\<lparr>ready_objs := []\<rparr>) fs),
             ?E'\<lparr>ready_objs := ready_objs it1 @ ready_objs ?E'\<rparr>)"
    by (rule process_chunks_prepend)
  with rest have ok: "fst (process_chunks (it1\<lparr>ready_objs := []\<rparr>) fs) = None"
    and E: "E = ?E'\<lparr>ready_objs := ready_objs it1 @ ready_objs ?E'\<rparr>"
    by simp_all
  have swap: "?it1\<lparr>ready_objs := []\<rparr> = (it1\<lparr>ready_objs := []\<rparr>)\<lparr>response_itr := fs\<rparr>"
    by simp
  have pc: "process_chunks (?it1\<lparr>ready_objs := []\<rparr>) fs = (None, ?E'\<lparr>response_itr := fs\<rparr>)"
    by (simp only: swap process_chunks_response_itr ok)
  have ih: "fst (next_calls loads from_json
                  (Suc (length (ready_objs ?it1) + length (ready_objs (?E'\<lparr>response_itr := fs\<rparr>)))) ?it1)
             = map (decode loads from_json) (ready_objs ?it1 @ ready_objs (?E'\<lparr>response_itr := fs\<rparr>))
               @ [Inl StopIteration]"
    by (rule Cons.IH [OF pc]) simp
  have len: "length (ready_objs E) = length (ready_objs it1) + length (ready_objs ?E')"
    and q: "ready_objs E = ready_objs it1 @ ready_objs ?E'"
    by (subst E, simp)+
  have first: "iter_next loads from_json ?it0 = iter_next loads from_json ?it1"
    by (rule iter_next_pull [where f = f]) (use Cons.prems(2) p r in simp_all)
  have "fst (next_calls loads from_json (length (ready_objs it) + Suc (length (ready_objs E))) it)
          = map (decode loads from_json) (ready_objs it)
            @ fst (next_calls loads from_json (Suc (length (ready_objs E))) ?it0)"
    by (rule next_calls_drain) simp
  also have "fst (next_calls loads from_json (Suc (length (ready_objs E))) ?it0)
          = fst (next_calls loads from_json (Suc (length (ready_objs E))) ?it1)"
    by (simp only: fst_next_calls_Suc first)
  also have "\<dots> = map (decode loads from_json) (ready_objs E) @ [Inl StopIteration]"
    using ih by (simp add: len q)
  finally show ?case by simp
qed

subsection \<open>Scanning the streams the scanner is written for\<close>

lemma level_process_char_dquote: "level (process_char dquote it) = level it"
  by (simp add: process_char_def dquote_def Let_def)

lemma literal_chars:
  assumes "list_all literal_char s" and "in_string it" and "level it \<noteq> 1"
  shows "scan s it = it\<lparr>obj := obj it @ s\<rparr> \<and> (\<forall>l \<in> set (depths s it). l = level it)"
  using assms
proof (induction s arbitrary: it)
  case Nil
  show ?case by (simp add: scan_Nil)
next
  case (Cons c s)
  from Cons.prems have c: "literal_char c" and s: "list_all literal_char s" by simp_all
  from c Cons.prems(2,3) have step: "process_char c it = it\<lparr>obj := obj it @ [c]\<rparr>"
    by (simp add: process_char_def literal_char_def Let_def)
  from Cons.IH [OF s, of "it\<lparr>obj := obj it @ [c]\<rparr>"] Cons.prems(2,3)
  show ?case by (simp add: scan_Cons step)
qed

lemma spans_step:
  assumes ih: "\<And>p it. p \<in> set ps \<Longrightarrow> \<not> in_string it \<Longrightarrow> 2 \<le> level it \<Longrightarrow>
             scan (text_of p) it = it\<lparr>obj := obj it @ queued_of p\<rparr>
             \<and> (\<forall>l \<in> set (depths (text_of p) it). level it \<le> l)"
    and "\<not> in_string it" and "2 \<le> level it"
  shows "scan (concat (map text_of ps)) it = it\<lparr>obj := obj it @ concat (map queued_of ps)\<rparr>
         \<and> (\<forall>l \<in> set (depths (concat (map text_of ps)) it). level it \<le> l)"
  using assms
proof (induction ps arbitrary: it)
  case Nil
  show ?case by (simp add: scan_Nil)
next
  case (Cons p ps)
  have p: "scan (text_of p) it = it\<lparr>obj := obj it @ queued_of p\<rparr>
           \<and> (\<forall>l \<in> set (depths (text_of p) it). level it \<le> l)"
    by (rule Cons.prems(1)) (use Cons.prems in simp_all)
  let ?it = "it\<lparr>obj := obj it @ queued_of p\<rparr>"
  have "scan (concat (map text_of ps)) ?it = ?it\<lparr>obj := obj ?it @ concat (map queued_of ps)\<rparr>
         \<and> (\<forall>l \<in> set (depths (concat (map text_of ps)) ?it). level ?it \<le> l)"
  proof (rule Cons.IH)
    fix q and it' :: ResponseIterator assume "q \<in> set ps" "\<not> in_string it'" "2 \<le> level it'"
    then show "scan (text_of q) it' = it'\<lparr>obj := obj it' @ queued_of q\<rparr>
             \<and> (\<forall>l \<in> set (depths (text_of q) it'). level it' \<le> l)"
      by (intro Cons.prems(1)) simp_all
  qed (use Cons.prems(2,3) in simp_all)
  with p show ?case
    by (auto simp add: scan_append depths_append)
qed

lemma plain_span_scan:
  assumes "plain_span p" and "\<not> in_string it" and "2 \<le> level it"
  shows "scan (text_of p) it = it\<lparr>obj := obj it @ queued_of p\<rparr>
         \<and> (\<forall>l \<in> set (depths (text_of p) it). level it \<le> l)"
  using assms
proof (induction p arbitrary: it)
  case (Other c)
  then show ?case
    by (simp add: scan_Nil scan_Cons process_char_def plain_char_def Let_def)
next
  case (Blank c)
  then have "process_char c it = it"
    by (auto simp add: process_char_def whitespace_def dquote_def)
  then show ?case by (simp add: scan_Cons scan_Nil)
next
  case (Literal s)
  let ?it = "it\<lparr>in_string := True, obj := obj it @ [dquote]\<rparr>"
  from Literal.prems have q1: "process_char dquote it = ?it"
    by (simp add: process_char_def dquote_def Let_def)
  have body: "scan s ?it = ?it\<lparr>obj := obj ?it @ s\<rparr> \<and> (\<forall>l \<in> set (depths s ?it). l = level ?it)"
    by (rule literal_chars) (use Literal.prems in simp_all)
  have q2: "process_char dquote (?it\<lparr>obj := obj ?it @ s\<rparr>)
              = it\<lparr>obj := obj it @ [dquote] @ s @ [dquote]\<rparr>"
    using Literal.prems by (simp add: process_char_def dquote_def Let_def)
  have "scan ([dquote] @ s @ [dquote]) it = process_char dquote (scan s (process_char dquote it))"
    by (simp add: scan_append scan_Cons scan_Nil)
  also have "\<dots> = process_char dquote (?it\<lparr>obj := obj ?it @ s\<rparr>)"
    by (simp only: q1 conjunct1 [OF body])
  also note q2
  finally have res: "scan (text_of (Literal s)) it = it\<lparr>obj := obj it @ queued_of (Literal s)\<rparr>"
    by simp
  have "depths ([dquote] @ s @ [dquote]) it
          = [level ?it] @ depths s ?it @ [level (process_char dquote (?it\<lparr>obj := obj ?it @ s\<rparr>))]"
    by (simp add: depths_append scan_Cons scan_Nil q1 conjunct1 [OF body])
  with body have "\<forall>l \<in> set (depths (text_of (Literal s)) it). level it \<le> l"
    by (simp add: level_process_char_dquote)
  with res show ?case by simp
next
  case (Braces ps)
  let ?it = "it\<lparr>level := level it + 1, obj := obj it @ ''{''\<rparr>"
  from Braces.prems have o: "process_char CHR ''{'' it = ?it"
    by (simp add: process_char_def Let_def)
  have body: "scan (concat (map text_of ps)) ?it = ?it\<lparr>obj := obj ?it @ concat (map queued_of ps)\<rparr>
         \<and> (\<forall>l \<in> set (depths (concat (map text_of ps)) ?it). level ?it \<le> l)"
  proof (rule spans_step)
    fix p and it' :: ResponseIterator assume "p \<in> set ps" "\<not> in_string it'" "2 \<le> level it'"
    with Braces.prems(1) show "scan (text_of p) it' = it'\<lparr>obj := obj it' @ queued_of p\<rparr>
             \<and> (\<forall>l \<in> set (depths (text_of p) it'). level it' \<le> l)"
      by (intro Braces.IH) (simp_all add: list_all_iff)
  qed (use Braces.prems in simp_all)
  have c: "process_char CHR ''}'' (?it\<lparr>obj := obj ?it @ concat (map queued_of ps)\<rparr>)
             = it\<lparr>obj := obj it @ ''{'' @ concat (map queued_of ps) @ ''}''\<rparr>"
    using Braces.prems by (simp add: process_char_def dquote_def Let_def)
  have "scan (''{'' @ concat (map text_of ps) @ ''}'') it
          = process_char CHR ''}'' (scan (concat (map text_of ps)) (process_char CHR ''{'' it))"
    by (simp add: scan_append scan_Cons scan_Nil)
  also have "\<dots> = process_char CHR ''}'' (?it\<lparr>obj := obj ?it @ concat (map queued_of ps)\<rparr>)"
    by (simp only: o conjunct1 [OF body])
  also note c
  finally have res: "scan (text_of (Braces ps)) it = it\<lparr>obj := obj it @ queued_of (Braces ps)\<rparr>"
    by simp
  have "depths (''{'' @ concat (map text_of ps) @ ''}'') it
          = [level ?it] @ depths (concat (map text_of ps)) ?it
            @ [level (process_char CHR ''}'' (?it\<lparr>obj := obj ?it @ concat (map queued_of ps)\<rparr>))]"
    by (simp add: depths_append scan_Cons scan_Nil o conjunct1 [OF body])
  also have "level (process_char CHR ''}'' (?it\<lparr>obj := obj ?it @ concat (map queued_of ps)\<rparr>)) = level it"
    by (simp only: c) simp
  finally have "\<forall>l \<in> set (depths (text_of (Braces ps)) it). level it \<le> l"
    using conjunct2 [OF body] by auto
  with res show ?case by simp
qed

lemma object_scan:
  assumes "list_all plain_span ps" and "\<not> in_string it" and "level it = 1"
  shows "scan (text_of (Braces ps)) it
           = it\<lparr>obj := queued_of (Braces ps), ready_objs := ready_objs it @ [queued_of (Braces ps)]\<rparr>
         \<and> (\<forall>l \<in> set (depths (text_of (Braces ps)) it). 1 \<le> l)"
proof -
  let ?body = "concat (map text_of ps)"
  let ?kept = "concat (map queued_of ps)"
  let ?it = "it\<lparr>obj := ''{'', level := 2\<rparr>"
  from assms have o: "process_char CHR ''{'' it = ?it"
    by (simp add: process_char_def Let_def)
  have body: "scan ?body ?it = ?it\<lparr>obj := obj ?it @ ?kept\<rparr>
              \<and> (\<forall>l \<in> set (depths ?body ?it). level ?it \<le> l)"
  proof (rule spans_step)
    fix p and it' :: ResponseIterator
    assume "p \<in> set ps" "\<not> in_string it'" "2 \<le> level it'"
    with assms(1) show "scan (text_of p) it' = it'\<lparr>obj := obj it' @ queued_of p\<rparr>
             \<and> (\<forall>l \<in> set (depths (text_of p) it'). level it' \<le> l)"
      by (intro plain_span_scan) (simp_all add: list_all_iff)
  qed (use assms in simp_all)
  have c: "process_char CHR ''}'' (?it\<lparr>obj := obj ?it @ ?kept\<rparr>)
             = it\<lparr>obj := queued_of (Braces ps), ready_objs := ready_objs it @ [queued_of (Braces ps)]\<rparr>"
    using assms by (simp add: process_char_def dquote_def Let_def)
  have "scan (''{'' @ ?body @ ''}'') it = process_char CHR ''}'' (scan ?body (process_char CHR ''{'' it))"
    by (simp add: scan_append scan_Cons scan_Nil)
  also have "\<dots> = process_char CHR ''}'' (?it\<lparr>obj := obj ?it @ ?kept\<rparr>)"
    by (simp only: o conjunct1 [OF body])
  also note c
  finally have res: "scan (text_of (Braces ps)) it
      = it\<lparr>obj := queued_of (Braces ps), ready_objs := ready_objs it @ [queued_of (Braces ps)]\<rparr>"
    by simp
  have "depths (''{'' @ ?body @ ''}'') it
          = [level ?it] @ depths ?body ?it
            @ [level (process_char CHR ''}'' (?it\<lparr>obj := obj ?it @ ?kept\<rparr>))]"
    by (simp add: depths_append scan_Cons scan_Nil o conjunct1 [OF body])
  also have "level (process_char CHR ''}'' (?it\<lparr>obj := obj ?it @ ?kept\<rparr>)) = 1"
    by (simp only: c) (simp add: assms)
  finally have "\<forall>l \<in> set (depths (text_of (Braces ps)) it). 1 \<le> l"
    using conjunct2 [OF body] by auto
  with res show ?thesis by simp
qed

lemma gap_scan:
  assumes "list_all gap_char g" and "\<not> in_string it"
  shows "(\<exists>x. scan g it = it\<lparr>obj := x\<rparr>) \<and> (\<forall>l \<in> set (depths g it). l = level it)"
  using assms
proof (induction g arbitrary: it)
  case Nil
  have "it = it\<lparr>obj := obj it\<rparr>" by simp
  then have "\<exists>x. it = it\<lparr>obj := x\<rparr>" ..
  then show ?case by (simp add: scan_Nil)
next
  case (Cons c g)
  from Cons.prems have "gap_char c" and g: "list_all gap_char g" by simp_all
  with Cons.prems(2) have step: "process_char c it = it\<lparr>obj := obj (process_char c it)\<rparr>"
    by (auto simp add: process_char_def gap_char_def dquote_def whitespace_def Let_def)
  define y where "y = obj (process_char c it)"
  from step have step': "process_char c it = it\<lparr>obj := y\<rparr>" by (simp only: y_def)
  from Cons.IH [OF g, of "it\<lparr>obj := y\<rparr>"] Cons.prems(2)
  show ?case by (auto simp add: scan_Cons step')
qed

lemma items_scan:
  assumes "list_all plain_item items" and "\<not> in_string it" and "level it = 1"
  shows "(\<exists>x. scan (concat (map item_text items)) it
                = it\<lparr>obj := x, ready_objs := ready_objs it @ map queued_text items\<rparr>)
         \<and> (\<forall>l \<in> set (depths (concat (map item_text items)) it). 1 \<le> l)"
  using assms
proof (induction items arbitrary: it)
  case Nil
  have "it = it\<lparr>obj := obj it, ready_objs := ready_objs it\<rparr>" by simp
  then have "\<exists>x. it = it\<lparr>obj := x, ready_objs := ready_objs it\<rparr>" ..
  then show ?case by (simp add: scan_Nil)
next
  case (Cons item items)
  from Cons.prems(1) have item: "plain_item item" and rest: "list_all plain_item items"
    by simp_all
  from item have gap: "list_all gap_char (fst item)" and spans: "list_all plain_span (snd item)"
    by (simp_all add: plain_item_def)
  from gap_scan [OF gap Cons.prems(2)] obtain x
    where g: "scan (fst item) it = it\<lparr>obj := x\<rparr>"
      and gd: "\<forall>l \<in> set (depths (fst item) it). l = level it"
    by blast
  let ?o = "text_of (Braces (snd item))"
  let ?k = "queued_of (Braces (snd item))"
  let ?it1 = "it\<lparr>obj := x\<rparr>"
  let ?it2 = "?it1\<lparr>obj := ?k, ready_objs := ready_objs ?it1 @ [?k]\<rparr>"
  have ob: "scan ?o ?it1 = ?it2 \<and> (\<forall>l \<in> set (depths ?o ?it1). 1 \<le> l)"
    by (rule object_scan [OF spans]) (use Cons.prems in simp_all)
  have "(\<exists>y. scan (concat (map item_text items)) ?it2
                = ?it2\<lparr>obj := y, ready_objs := ready_objs ?it2 @ map queued_text items\<rparr>)
         \<and> (\<forall>l \<in> set (depths (concat (map item_text items)) ?it2). 1 \<le> l)"
    by (rule Cons.IH [OF rest]) (use Cons.prems in simp_all)
  then obtain y where r: "scan (concat (map item_text items)) ?it2
                = ?it2\<lparr>obj := y, ready_objs := ready_objs ?it2 @ map queued_text items\<rparr>"
    and rd: "\<forall>l \<in> set (depths (concat (map item_text items)) ?it2). 1 \<le> l"
    by blast
  have split: "concat (map item_text (item # items)) = fst item @ ?o @ concat (map item_text items)"
    by (simp add: item_text_def object_text_def del: text_of.simps)
  have "scan (concat (map item_text (item # items))) it
          = scan (concat (map item_text items)) (scan ?o (scan (fst item) it))"
    by (simp only: split scan_append)
  also have "\<dots> = ?it2\<lparr>obj := y, ready_objs := ready_objs ?it2 @ map queued_text items\<rparr>"
    by (simp only: g conjunct1 [OF ob] r)
  finally have res: "scan (concat (map item_text (item # items))) it
          = it\<lparr>obj := y, ready_objs := ready_objs it @ map queued_text (item # items)\<rparr>"
    by (simp add: queued_text_def)
  have "depths (concat (map item_text (item # items))) it
          = depths (fst item) it @ depths ?o ?it1 @ depths (concat (map item_text items)) ?it2"
    by (simp only: split depths_append scan_append g conjunct1 [OF ob])
  with gd conjunct2 [OF ob] rd Cons.prems(3)
  have "\<forall>l \<in> set (depths (concat (map item_text (item # items))) it). 1 \<le> l"
    by auto
  with res show ?case by blast
qed

lemma array_scan:
  assumes "list_all plain_item items" and "list_all gap_char trail"
  shows "\<exists>x. scan (array_text items trail) (init fs)
           = \<lparr>response_itr = fs, ready_objs = map queued_text items, obj = x, level = 0,
              in_string = False\<rparr>"
    and "\<forall>l \<in> set (butlast (depths (array_text items trail) (init fs))). 1 \<le> l"
    and "\<forall>l \<in> set (depths (array_text items trail) (init fs)). 0 \<le> l"
proof -
  let ?it1 = "(init fs)\<lparr>level := 1\<rparr>"
  have o: "process_char CHR ''['' (init fs) = ?it1"
    by (simp add: process_char_def init_def dquote_def whitespace_def Let_def)
  have "(\<exists>x. scan (concat (map item_text items)) ?it1
                = ?it1\<lparr>obj := x, ready_objs := ready_objs ?it1 @ map queued_text items\<rparr>)
         \<and> (\<forall>l \<in> set (depths (concat (map item_text items)) ?it1). 1 \<le> l)"
    by (rule items_scan [OF assms(1)]) (simp_all add: init_def)
  then obtain x where i: "scan (concat (map item_text items)) ?it1
                = ?it1\<lparr>obj := x, ready_objs := ready_objs ?it1 @ map queued_text items\<rparr>"
    and idp: "\<forall>l \<in> set (depths (concat (map item_text items)) ?it1). 1 \<le> l"
    by blast
  let ?it2 = "?it1\<lparr>obj := x, ready_objs := ready_objs ?it1 @ map queued_text items\<rparr>"
  have "(\<exists>y. scan trail ?it2 = ?it2\<lparr>obj := y\<rparr>) \<and> (\<forall>l \<in> set (depths trail ?it2). l = level ?it2)"
    by (rule gap_scan [OF assms(2)]) (simp add: init_def)
  then obtain y where t: "scan trail ?it2 = ?it2\<lparr>obj := y\<rparr>"
    and td: "\<forall>l \<in> set (depths trail ?it2). l = level ?it2"
    by blast
  have c: "process_char CHR '']'' (?it2\<lparr>obj := y\<rparr>)
             = \<lparr>response_itr = fs, ready_objs = map queued_text items, obj = y, level = 0,
                in_string = False\<rparr>"
    by (simp add: process_char_def init_def dquote_def whitespace_def Let_def)
  have "scan (array_text items trail) (init fs)
          = process_char CHR '']'' (scan trail (scan (concat (map item_text items))
              (process_char CHR ''['' (init fs))))"
    by (simp add: array_text_def scan_append scan_Cons scan_Nil)
  also have "\<dots> = process_char CHR '']'' (?it2\<lparr>obj := y\<rparr>)"
    by (simp only: o i t)
  also note c
  finally show "\<exists>x. scan (array_text items trail) (init fs)
           = \<lparr>response_itr = fs, ready_objs = map queued_text items, obj = x, level = 0,
              in_string = False\<rparr>" ..
  have "depths (array_text items trail) (init fs)
          = ([level (process_char CHR ''['' (init fs))]
             @ depths (concat (map item_text items)) (process_char CHR ''['' (init fs))
             @ depths trail (scan (concat (map item_text items)) (process_char CHR ''['' (init fs))))
            @ [level (process_char CHR '']'' (scan trail (scan (concat (map item_text items))
                 (process_char CHR ''['' (init fs)))))]"
    by (simp add: array_text_def depths_append scan_append scan_Cons scan_Nil)
  then have d: "depths (array_text items trail) (init fs)
          = ([level ?it1] @ depths (concat (map item_text items)) ?it1 @ depths trail ?it2) @ [0]"
    by (simp only: o i t c) simp
  have l1: "level ?it1 = 1" and l2: "level ?it2 = 1" by simp_all
  from idp td show "\<forall>l \<in> set (butlast (depths (array_text items trail) (init fs))). 1 \<le> l"
    by (simp only: d butlast_snoc l1 l2) auto
  from idp td show "\<forall>l \<in> set (depths (array_text items trail) (init fs)). 0 \<le> l"
    by (simp only: d l1 l2) auto
qed

lemma array_feed:
  assumes "list_all plain_item items" and "list_all gap_char trail"
    and "concat frags = array_text items trail" and "[] \<notin> set frags"
  shows "process_chunks (init frags) frags = (None, scan (array_text items trail) (init frags))"
proof -
  have hd: "hd (concat frags) = CHR ''[''" by (simp add: assms(3) array_text_def)
  from array_scan(2) [OF assms(1,2), of frags]
  have inner: "\<forall>l \<in> set (butlast (depths (concat frags) (init frags))). l \<noteq> 0"
    by (auto simp add: assms(3))
  have "process_chunks (init frags) frags = (None, scan (concat frags) (init frags))"
    by (rule feed_eq_scan [OF assms(4) _ inner]) (simp add: hd)
  then show ?thesis by (simp add: assms(3))
qed


subsection \<open>Queue entries\<close>

lemma ready_objs_process_char:
  "ready_objs (process_char c it)
     = (if completes c it then ready_objs it @ [obj it @ [c]] else ready_objs it)"
  by (simp add: process_char_def completes_def Let_def dquote_def)

lemma no_completion_no_entry:
  assumes "\<forall>n < length cs. \<not> completes (cs ! n) (scan (take n cs) it)"
  shows "ready_objs (scan cs it) = ready_objs it"
  using assms
proof (induction cs arbitrary: it)
  case Nil
  show ?case by (simp add: scan_Nil)
next
  case (Cons c cs)
  from Cons.prems have "\<not> completes ((c # cs) ! 0) (scan (take 0 (c # cs)) it)" by blast
  then have first: "ready_objs (process_char c it) = ready_objs it"
    by (simp add: scan_Nil ready_objs_process_char)
  have "\<forall>n < length cs. \<not> completes (cs ! n) (scan (take n cs) (process_char c it))"
  proof (intro allI impI)
    fix n assume "n < length cs"
    then have "Suc n < length (c # cs)" by simp
    with Cons.prems have "\<not> completes ((c # cs) ! Suc n) (scan (take (Suc n) (c # cs)) it)"
      by blast
    then show "\<not> completes (cs ! n) (scan (take n cs) (process_char c it))"
      by (simp add: scan_Cons)
  qed
  then have "ready_objs (scan cs (process_char c it)) = ready_objs (process_char c it)"
    by (rule Cons.IH)
  with first show ?case by (simp add: scan_Cons)
qed

lemma object_inner_depths:
  assumes "list_all plain_span ps" and "\<not> in_string it" and "level it = 1"
  shows "\<forall>l \<in> set (butlast (depths (text_of (Braces ps)) it)). 2 \<le> l"
proof -
  let ?body = "concat (map text_of ps)"
  let ?kept = "concat (map queued_of ps)"
  let ?it = "it\<lparr>obj := ''{'', level := 2\<rparr>"
  from assms have o: "process_char CHR ''{'' it = ?it"
    by (simp add: process_char_def Let_def)
  have body: "scan ?body ?it = ?it\<lparr>obj := obj ?it @ ?kept\<rparr>
              \<and> (\<forall>l \<in> set (depths ?body ?it). level ?it \<le> l)"
  proof (rule spans_step)
    fix p and it' :: ResponseIterator
    assume "p \<in> set ps" "\<not> in_string it'" "2 \<le> level it'"
    with assms(1) show "scan (text_of p) it' = it'\<lparr>obj := obj it' @ queued_of p\<rparr>
             \<and> (\<forall>l \<in> set (depths (text_of p) it'). level it' \<le> l)"
      by (intro plain_span_scan) (simp_all add: list_all_iff)
  qed (use assms in simp_all)
  have "depths (''{'' @ ?body @ ''}'') it
          = ([level ?it] @ depths ?body ?it)
            @ [level (process_char CHR ''}'' (scan ?body ?it))]"
    by (simp add: depths_append scan_Cons scan_Nil o)
  then have "butlast (depths (text_of (Braces ps)) it) = [level ?it] @ depths ?body ?it"
    by (simp only: text_of.simps butlast_snoc)
  with conjunct2 [OF body] show ?thesis by auto
qed

lemma completes_level: "completes c it \<Longrightarrow> level (process_char c it) = 1"
  by (simp add: completes_def process_char_def dquote_def Let_def)

lemma quiet_while_not_at_1:
  assumes "\<forall>l \<in> set (depths cs it). l \<noteq> 1"
  shows "ready_objs (scan cs it) = ready_objs it"
proof (rule no_completion_no_entry, intro allI impI)
  fix n assume n: "n < length cs"
  then have "depths cs it ! n \<in> set (depths cs it)" by (simp add: length_depths)
  with assms have "depths cs it ! n \<noteq> 1" by blast
  with n have "level (scan (take (Suc n) cs) it) \<noteq> 1" by (simp add: depths_nth)
  moreover from n have "take (Suc n) cs = take n cs @ [cs ! n]"
    by (rule take_Suc_conv_app_nth)
  ultimately have "level (process_char (cs ! n) (scan (take n cs) it)) \<noteq> 1"
    by (simp add: scan_append scan_Cons scan_Nil)
  then show "\<not> completes (cs ! n) (scan (take n cs) it)"
    using completes_level by blast
qed

lemma concat_take_proper:
  assumes "[] \<notin> set frags" and "k < length frags"
  shows "concat (drop k frags) \<noteq> []"
proof -
  from assms(2) have "frags ! k \<in> set (drop k frags)"
    by (metis Cons_nth_drop_Suc list.set_intros(1))
  moreover from assms have "frags ! k \<noteq> []" by (metis nth_mem)
  ultimately show ?thesis by auto
qed

lemma cancel_funpow:
  "(cancel close ^^ n) it = it\<lparr>response_itr := (close ^^ n) (response_itr it)\<rparr>"
  by (induction n arbitrary: it) (simp_all add: cancel_def)

section \<open>The claims\<close>

subsection \<open>Queue entries and closing braces\<close>

text \<open>
  Claim C4, as the code has it. A queue entry is produced exactly when a closing brace is
  processed while the string flag is off and the depth, once decremented, is 1; the
  entry is the accumulated object text with that brace already appended. For every
  object that is balanced in braces, holds no bracket and no double quote inside a
  string literal, and that starts at depth 1 outside a string: however its text is cut
  into fragments that are not empty, the fragments before the last raise nothing and
  add no queue entry, and once the last fragment, which holds the closing brace, is
  processed the queue has gained exactly that object's text, less the whitespace outside
  its string literals.
\<close>

theorem partial_object_queues_nothing:
  assumes "list_all plain_span ps" and "\<not> in_string it" and "level it = 1"
    and "concat frags = text_of (Braces ps)" and "[] \<notin> set frags" and "k < length frags"
  shows "ready_objs (process_char c it')
           = (if c = CHR ''}'' \<and> \<not> in_string it' \<and> level it' - 1 = 1
              then ready_objs it' @ [obj it' @ [c]] else ready_objs it')
         \<and> fst (process_chunks it (take k frags)) = None
         \<and> ready_objs (snd (process_chunks it (take k frags))) = ready_objs it
         \<and> fst (process_chunks it frags) = None
         \<and> ready_objs (snd (process_chunks it frags)) = ready_objs it @ [queued_of (Braces ps)]"
proof -
  let ?o = "text_of (Braces ps)"
  let ?pre = "concat (take k frags)" and ?post = "concat (drop k frags)"
  have "concat frags = ?pre @ ?post"
    by (simp flip: concat_append)
  with assms(4) have split: "?o = ?pre @ ?post" by simp
  have post: "?post \<noteq> []" by (rule concat_take_proper [OF assms(5,6)])
  then have dpost: "depths ?post (scan ?pre it) \<noteq> []"
    using length_depths [of ?post "scan ?pre it"] by auto
  have inner: "\<forall>l \<in> set (butlast (depths ?o it)). 2 \<le> l"
    by (rule object_inner_depths [OF assms(1,2,3)])
  have "butlast (depths ?o it) = depths ?pre it @ butlast (depths ?post (scan ?pre it))"
    by (simp only: split depths_append butlast_append dpost if_False)
  with inner have pre: "\<forall>l \<in> set (depths ?pre it). 2 \<le> l" by auto
  have a: "process_chunks it (take k frags) = (None, scan ?pre it)"
  proof (rule feed_eq_scan)
    from assms(5) show "[] \<notin> set (take k frags)" by (auto dest: in_set_takeD)
    from assms(3) show "level it = 0 \<longrightarrow> take k frags \<noteq> [] \<longrightarrow> hd ?pre = CHR ''[''" by simp
    show "\<forall>l \<in> set (butlast (depths ?pre it)). l \<noteq> 0"
    proof
      fix l assume "l \<in> set (butlast (depths ?pre it))"
      then have "l \<in> set (depths ?pre it)" by (rule in_set_butlastD)
      with pre have "2 \<le> l" by blast
      then show "l \<noteq> 0" by simp
    qed
  qed
  from pre have "\<forall>l \<in> set (depths ?pre it). l \<noteq> 1" by auto
  then have b: "ready_objs (scan ?pre it) = ready_objs it" by (rule quiet_while_not_at_1)
  have c: "process_chunks it frags = (None, scan (concat frags) it)"
  proof (rule feed_eq_scan [OF assms(5)])
    from assms(3) show "level it = 0 \<longrightarrow> frags \<noteq> [] \<longrightarrow> hd (concat frags) = CHR ''[''" by simp
    show "\<forall>l \<in> set (butlast (depths (concat frags) it)). l \<noteq> 0"
    proof
      fix l assume "l \<in> set (butlast (depths (concat frags) it))"
      then have "l \<in> set (butlast (depths ?o it))" by (simp only: assms(4))
      with inner have "2 \<le> l" by blast
      then show "l \<noteq> 0" by simp
    qed
  qed
  from object_scan [OF assms(1,2,3)]
  have d: "ready_objs (scan ?o it) = ready_objs it @ [queued_of (Braces ps)]" by simp
  have e: "ready_objs (process_char c it')
           = (if c = CHR ''}'' \<and> \<not> in_string it' \<and> level it' - 1 = 1
              then ready_objs it' @ [obj it' @ [c]] else ready_objs it')"
    by (simp add: ready_objs_process_char completes_def)
  from a b c d e show ?thesis by (simp add: assms(4))
qed

text \<open>The object \<^verbatim>\<open>{"a":1}\<close> after the opening bracket of the array, cut after
  \<^verbatim>\<open>{"a\<close>: the first fragment queues nothing, both together queue the object.\<close>

theorem partial_object_queues_nothing_witness:
  \<open>list_all plain_span [Literal ''a'', Other CHR '':'', Other CHR ''1'']
   \<and> \<not> in_string (scan ''['' (init [])) \<and> level (scan ''['' (init [])) = 1
   \<and> concat [''{"a'', ''":1}''] = text_of (Braces [Literal ''a'', Other CHR '':'', Other CHR ''1''])
   \<and> [] \<notin> set [''{"a'', ''":1}''] \<and> (1::nat) < length [''{"a'', ''":1}'']
   \<and> process_chunks (scan ''['' (init [])) [''{"a''] 
       = (None, \<lparr>response_itr = [], ready_objs = [], obj = ''{"a'', level = 2, in_string = True\<rparr>)
   \<and> ready_objs (snd (process_chunks (scan ''['' (init [])) [''{"a'', ''":1}''])) = [''{"a":1}'']\<close>
proof -
  let ?ps = "[Literal ''a'', Other CHR '':'', Other CHR ''1'']"
  let ?it = "scan ''['' (init [])"
  let ?frags = \<open>[''{"a'', ''":1}'']\<close>
  have h1: "list_all plain_span ?ps"
    by (simp add: plain_char_def literal_char_def whitespace_def dquote_def)
  have h2: "\<not> in_string ?it" and h3: "level ?it = 1"
    by (simp_all add: scan_Cons scan_Nil init_def process_char_def dquote_def whitespace_def)
  have h4: "concat ?frags = text_of (Braces ?ps)" by (simp add: dquote_def)
  have h5: "[] \<notin> set ?frags" by simp
  have h6: "(1::nat) < length ?frags" by simp
  from partial_object_queues_nothing [OF h1 h2 h3 h4 h5 h6]
  have "ready_objs (snd (process_chunks ?it (take 1 ?frags))) = ready_objs ?it"
    and "ready_objs (snd (process_chunks ?it ?frags)) = ready_objs ?it @ [queued_of (Braces ?ps)]"
    by blast+
  moreover have \<open>process_chunks ?it [''{"a''] 
       = (None, \<lparr>response_itr = [], ready_objs = [], obj = ''{"a'', level = 2, in_string = True\<rparr>)\<close>
    by (simp add: scan_Cons scan_Nil init_def process_chunk_def check_array_def process_char_def
        dquote_def whitespace_def Let_def)
  moreover have "ready_objs ?it = []"
    by (simp add: scan_Cons scan_Nil init_def process_char_def dquote_def whitespace_def)
  ultimately show ?thesis using h1 h2 h3 h4 h5 h6 by (simp add: dquote_def)
qed

text \<open>Claim C4 as first stated fails on an object whose string value is an escaped double
  quote followed by a closing brace, \<^verbatim>\<open>{"a":"\"}"}\<close>, cut before the closing quote of
  that string: the scanner takes the escaped quote for the end of the string, so the
  first fragment already queues an entry, and the second, which holds the object's
  closing brace, adds none.\<close>

theorem escaped_quote_queues_early:
  \<open>ready_objs (snd (process_chunk (init []) (''[{"a":"'' @ [backslash] @ ''"}'')))
     = [''{"a":"'' @ [backslash] @ ''"}'']
   \<and> process_chunks (init []) [''[{"a":"'' @ [backslash] @ ''"}'', ''"}]'']
     = (None, \<lparr>response_itr = [], ready_objs = [''{"a":"'' @ [backslash] @ ''"}''],
               obj = ''{"a":"'' @ [backslash] @ ''"}"}'', level = 0, in_string = True\<rparr>)\<close>
  by (simp add: init_def process_chunk_def check_array_def scan_Cons scan_Nil process_char_def
      dquote_def backslash_def whitespace_def Let_def)

subsection \<open>The malformed-stream error\<close>

text \<open>
  Claim C10. Whenever \<^verbatim>\<open>_process_chunk\<close> raises the malformed-stream \<^verbatim>\<open>ValueError\<close>, it
  does so before it has consumed any character of the fragment: depth, string flag,
  current object and queue are what they were before the call.
\<close>

theorem malformed_error_leaves_state:
  assumes "fst (process_chunk it chunk) = Some (ValueError m)"
  shows "snd (process_chunk it chunk) = it"
  using assms by (simp add: process_chunk_def split: option.splits)

text \<open>The fragment \<^verbatim>\<open>not an array\<close> in the initial state.\<close>

theorem malformed_error_leaves_state_witness:
  "fst (process_chunk (init []) ''not an array'')
     = Some (ValueError ''Can only parse array of JSON objects, instead got not an array'')
   \<and> snd (process_chunk (init []) ''not an array'') = init []"
proof -
  have h: "fst (process_chunk (init []) ''not an array'')
     = Some (ValueError ''Can only parse array of JSON objects, instead got not an array'')"
    by (simp add: init_def process_chunk_def check_array_def)
  from malformed_error_leaves_state [OF h] h show ?thesis by simp
qed

text \<open>
  Claim C6, as the code has it. \<^verbatim>\<open>_process_chunk\<close> raises the malformed-stream
  \<^verbatim>\<open>ValueError\<close> if and only if the depth is 0 when the fragment arrives, the fragment is
  not empty and its first character, whitespace included, is not the opening bracket;
  the message quotes the fragment. A fragment that arrives while the depth is not 0 is
  scanned and never raises, and a call that raises adds no queue entry.
\<close>

theorem malformed_error_iff_level_0_and_first_char:
  "(fst (process_chunk it chunk) = Some (ValueError m))
     = (level it = 0 \<and> chunk \<noteq> [] \<and> hd chunk \<noteq> CHR ''[''
        \<and> m = ''Can only parse array of JSON objects, instead got '' @ chunk)
   \<and> (level it \<noteq> 0 \<longrightarrow> process_chunk it chunk = (None, scan chunk it))
   \<and> (fst (process_chunk it chunk) \<noteq> None
        \<longrightarrow> ready_objs (snd (process_chunk it chunk)) = ready_objs it)"
  by (auto simp add: process_chunk_def check_array_def split: option.splits list.splits)

text \<open>The second fragment of \<^verbatim>\<open>[{\<close>, \<^verbatim>\<open>"a":1}]\<close> arrives at depth 2 and is scanned;
  the fragment \<^verbatim>\<open>not an array\<close> arrives at depth 0 and raises.\<close>

theorem malformed_error_iff_level_0_and_first_char_witness:
  \<open>level (snd (process_chunk (init []) ''[{'')) \<noteq> 0
   \<and> process_chunk (snd (process_chunk (init []) ''[{'')) ''"a":1}]''
       = (None, scan ''"a":1}]'' (snd (process_chunk (init []) ''[{'')))
   \<and> fst (process_chunk (init []) ''not an array'') \<noteq> None
   \<and> ready_objs (snd (process_chunk (init []) ''not an array'')) = ready_objs (init [])
   \<and> fst (process_chunk (init []) ''not an array'')
       = Some (ValueError ''Can only parse array of JSON objects, instead got not an array'')\<close>
proof -
  have h1: "level (snd (process_chunk (init []) ''[{'')) \<noteq> 0"
    by (simp add: init_def process_chunk_def check_array_def scan_Cons scan_Nil process_char_def
        dquote_def whitespace_def Let_def)
  have h2: "fst (process_chunk (init []) ''not an array'') \<noteq> None"
    by (simp add: init_def process_chunk_def check_array_def)
  have h3: "level (init []) = 0 \<and> ''not an array'' \<noteq> [] \<and> hd ''not an array'' \<noteq> CHR ''[''"
    by (simp add: init_def)
  from malformed_error_iff_level_0_and_first_char
         [of "snd (process_chunk (init []) ''[{'')" \<open>''"a":1}]''\<close>] h1
  have a: \<open>process_chunk (snd (process_chunk (init []) ''[{'')) ''"a":1}]''
       = (None, scan ''"a":1}]'' (snd (process_chunk (init []) ''[{'')))\<close> by blast
  from malformed_error_iff_level_0_and_first_char [of "init []" "''not an array''"
      "''Can only parse array of JSON objects, instead got not an array''"] h2 h3
  have b: "ready_objs (snd (process_chunk (init []) ''not an array'')) = ready_objs (init [])"
    and c: "fst (process_chunk (init []) ''not an array'')
       = Some (ValueError ''Can only parse array of JSON objects, instead got not an array'')"
    by simp_all
  from h1 a h2 b c show ?thesis by blast
qed

text \<open>Claim C6 as first stated fails twice. A first fragment whose first character is a
  space raises although the first character that is not whitespace is the bracket; and
  the fragment \<^verbatim>\<open>x\<close> that follows the complete array \<^verbatim>\<open>[{}]\<close> raises although parsing
  had begun and an object had been queued.\<close>

theorem malformed_error_counterexample:
  \<open>fst (process_chunk (init []) '' [{}]'')
     = Some (ValueError ''Can only parse array of JSON objects, instead got  [{}]'')
   \<and> process_chunks (init []) [''[{}]'', ''x'']
     = (Some (ValueError ''Can only parse array of JSON objects, instead got x''),
        \<lparr>response_itr = [], ready_objs = [''{}''], obj = ''{}'', level = 0, in_string = False\<rparr>)\<close>
  by (simp add: init_def process_chunk_def check_array_def scan_Cons scan_Nil process_char_def
      dquote_def whitespace_def Let_def)

subsection \<open>The empty fragment\<close>

text \<open>
  Claim C7 asks that a fragment of length zero be a no-op in every state. At depth 0 the
  code reads the first character of the fragment and raises \<^verbatim>\<open>IndexError\<close>; this is the
  code at the empty fragment in the initial state.
\<close>

theorem empty_fragment_at_level_0:
  "process_chunk (init []) [] = (Some IndexError, init [])"
  by (simp add: process_chunk_def check_array_def init_def)

subsection \<open>Characters inside a string\<close>

text \<open>
  Claim C3 asks that every character read while the string flag is set leave the depth
  alone and be appended to the current object. The branches for brackets do not look at
  the flag: this is the code on the stream \<^verbatim>\<open>[{"a":"[b]"}]\<close>, whose object is queued
  without its brackets, and on the opening bracket inside that string, which takes the
  depth from 2 to 3 and appends nothing.
\<close>

theorem brackets_inside_string_change_depth:
  \<open>process_chunk (init []) ''[{"a":"[b]"}]''
     = (None, \<lparr>response_itr = [], ready_objs = [''{"a":"b"}''], obj = ''{"a":"b"}'', level = 0,
               in_string = False\<rparr>)
   \<and> process_char CHR ''['' (snd (process_chunk (init []) ''[{"a":"''))
     = (snd (process_chunk (init []) ''[{"a":"''))\<lparr>level := 3\<rparr>\<close>
  by (simp add: init_def process_chunk_def check_array_def scan_Cons scan_Nil process_char_def
      dquote_def whitespace_def Let_def)

subsection \<open>Decoding the oldest object\<close>




subsection \<open>Cancelling\<close>

text \<open>
  Claim C8, as the code has it. \<^verbatim>\<open>cancel\<close> only closes the response: called any number
  of times it leaves depth, string flag, current object and queue as they were. A
  following \<^verbatim>\<open>next\<close> therefore still returns the oldest queued object when there is
  one; it ends the sequence when the queue is empty and the closed response yields no
  further fragment.
\<close>

theorem cancel_keeps_queue:
  "ready_objs (cancel close it) = ready_objs it \<and> obj (cancel close it) = obj it
   \<and> level (cancel close it) = level it \<and> in_string (cancel close it) = in_string it
   \<and> (cancel close ^^ n) it = it\<lparr>response_itr := (close ^^ n) (response_itr it)\<rparr>
   \<and> (ready_objs it = ob # rest \<longrightarrow>
        iter_next loads from_json ((cancel close ^^ n) it)
          = (decode loads from_json ob, ((cancel close ^^ n) it)\<lparr>ready_objs := rest\<rparr>))
   \<and> (ready_objs it = [] \<and> (close ^^ n) (response_itr it) = [] \<longrightarrow>
        iter_next loads from_json ((cancel close ^^ n) it)
          = (Inl StopIteration, (cancel close ^^ n) it))"
proof (intro conjI impI)
  show "(cancel close ^^ n) it = it\<lparr>response_itr := (close ^^ n) (response_itr it)\<rparr>"
    by (rule cancel_funpow)
next
  assume "ready_objs it = ob # rest"
  then have "ready_objs ((cancel close ^^ n) it) = ob # rest"
    by (simp add: cancel_funpow)
  then show "iter_next loads from_json ((cancel close ^^ n) it)
          = (decode loads from_json ob, ((cancel close ^^ n) it)\<lparr>ready_objs := rest\<rparr>)"
    by (rule iter_next_queued)
next
  assume "ready_objs it = [] \<and> (close ^^ n) (response_itr it) = []"
  then show "iter_next loads from_json ((cancel close ^^ n) it)
          = (Inl StopIteration, (cancel close ^^ n) it)"
    by (intro iter_next_exhausted) (simp_all add: cancel_funpow)
qed (simp_all add: cancel_def)

text \<open>Two calls of \<^verbatim>\<open>cancel\<close> on an iterator that holds the object \<^verbatim>\<open>{}\<close> in its queue,
  and on a fresh iterator over the fragment \<^verbatim>\<open>[{}]\<close>.\<close>

theorem cancel_keeps_queue_witness:
  "ready_objs ((init [])\<lparr>ready_objs := [''{}'']\<rparr>) = [''{}'']
   \<and> fst (iter_next json_loads accept_all
            (cancel close_ends (cancel close_ends ((init [])\<lparr>ready_objs := [''{}'']\<rparr>))))
       = Inr (map of_char ''{}'')
   \<and> ready_objs (init [''[{}]'']) = []
   \<and> close_ends (close_ends (response_itr (init [''[{}]'']))) = []
   \<and> fst (iter_next json_loads accept_all (cancel close_ends (cancel close_ends (init [''[{}]'']))))
       = Inl StopIteration"
proof -
  let ?q = "(init [])\<lparr>ready_objs := [''{}'']\<rparr>"
  have h1: "ready_objs ?q = ''{}'' # []" by simp
  have h2: "ready_objs (init [''[{}]'']) = [] \<and> (close_ends ^^ Suc (Suc 0)) (response_itr (init [''[{}]''])) = []"
    by (simp add: init_def close_ends_def)
  from cancel_keeps_queue [of close_ends ?q "Suc (Suc 0)" "''{}''" "[]" json_loads accept_all] h1
  have a: "iter_next json_loads accept_all ((cancel close_ends ^^ Suc (Suc 0)) ?q)
          = (decode json_loads accept_all ''{}'', ((cancel close_ends ^^ Suc (Suc 0)) ?q)\<lparr>ready_objs := []\<rparr>)"
    by blast
  from cancel_keeps_queue [of close_ends "init [''[{}]'']" "Suc (Suc 0)" _ _ json_loads accept_all] h2
  have b: "iter_next json_loads accept_all ((cancel close_ends ^^ Suc (Suc 0)) (init [''[{}]'']))
          = (Inl StopIteration, (cancel close_ends ^^ Suc (Suc 0)) (init [''[{}]'']))"
    by blast
  have d: "decode json_loads accept_all ''{}'' = Inr (map of_char ''{}'')"
    by (simp add: decode_def json_loads_def json_space_def dquote_def backslash_def accept_all_def)
  from a b d h2 show ?thesis by (simp add: init_def close_ends_def)
qed

text \<open>Claim C8 as first stated fails when an object is still queued: after the first
  \<^verbatim>\<open>next\<close> on the fragment \<^verbatim>\<open>[{},{}]\<close> and a \<^verbatim>\<open>cancel\<close>, the second \<^verbatim>\<open>next\<close> returns
  the second object, even though the closed response yields nothing more.\<close>

theorem next_after_cancel_returns_value:
  "fst (iter_next json_loads accept_all
          (cancel close_ends (snd (iter_next json_loads accept_all (init [''[{},{}]''])))))
     = Inr (map of_char ''{}'')"
  by (simp add: iter_next_def init_def process_chunk_def check_array_def scan_Cons scan_Nil
      process_char_def cancel_def close_ends_def accept_all_def dquote_def whitespace_def grab_def
      decode_def json_loads_def json_space_def backslash_def Let_def)

subsection \<open>Fragments of one character\<close>

text \<open>
  Claim C2, as the code has it. For every text that is not empty, that starts with the
  opening bracket when the depth is 0, and after none of whose characters but the last
  the depth is 0, feeding it one character at a time gives the same state and queue as
  feeding it whole, and neither raises.
\<close>

theorem single_chars_same_while_open:
  assumes "cs \<noteq> []" and "level it = 0 \<longrightarrow> hd cs = CHR ''[''"
    and "\<forall>l \<in> set (butlast (depths cs it)). l \<noteq> 0"
  shows "process_chunks it (single_chars cs) = process_chunks it [cs]
         \<and> process_chunks it [cs] = (None, scan cs it)"
proof -
  have "process_chunks it (single_chars cs) = (None, scan (concat (single_chars cs)) it)"
    by (rule feed_eq_scan) (use assms in \<open>simp_all add: concat_single_chars single_chars_nonempty\<close>)
  moreover have "process_chunks it [cs] = (None, scan (concat [cs]) it)"
    by (rule feed_eq_scan) (use assms in simp_all)
  ultimately show ?thesis by (simp add: concat_single_chars)
qed

text \<open>The text \<^verbatim>\<open>[{"a":1}]\<close> from the initial state.\<close>

theorem single_chars_same_while_open_witness:
  \<open>''[{"a":1}]'' \<noteq> [] \<and> hd ''[{"a":1}]'' = CHR ''[''
   \<and> 0 \<notin> set (butlast (depths ''[{"a":1}]'' (init [])))
   \<and> process_chunks (init []) (single_chars ''[{"a":1}]'') = process_chunks (init []) [''[{"a":1}]'']\<close>
proof -
  have h: \<open>0 \<notin> set (butlast (depths ''[{"a":1}]'' (init [])))\<close>
    by (simp add: init_def process_char_def dquote_def whitespace_def Let_def)
  then have h': \<open>\<forall>l \<in> set (butlast (depths ''[{"a":1}]'' (init []))). l \<noteq> 0\<close>
    by blast
  from single_chars_same_while_open [of \<open>''[{"a":1}]''\<close> "init []", OF _ _ h'] h show ?thesis by simp
qed

text \<open>Claim C2 as first stated fails on an array followed by a line feed: fed whole the
  text raises nothing, fed by characters the line feed arrives at depth 0 and raises.\<close>

theorem single_chars_differ_after_closing_bracket:
  \<open>process_chunks (init []) (single_chars (''[{}]'' @ [CHR 0x0A]))
     = (Some (ValueError (''Can only parse array of JSON objects, instead got '' @ [CHR 0x0A])),
        \<lparr>response_itr = [], ready_objs = [''{}''], obj = ''{}'', level = 0, in_string = False\<rparr>)
   \<and> process_chunks (init []) [''[{}]'' @ [CHR 0x0A]]
     = (None,
        \<lparr>response_itr = [], ready_objs = [''{}''], obj = ''{}'', level = 0, in_string = False\<rparr>)\<close>
  by (simp add: single_chars_def init_def process_chunk_def check_array_def scan_Cons scan_Nil
      process_char_def dquote_def whitespace_def Let_def)

subsection \<open>Order of delivery\<close>

text \<open>
  Claim C1, as the code has it. Take a stream whose text is an opening bracket, objects
  with commas and whitespace before, between and after them, and a closing bracket, where
  every object is balanced in braces, holds no bracket and holds no double quote inside a
  string literal. However that text is cut into fragments that are not empty, the
  scanner queues exactly the objects' texts, less the whitespace outside their string
  literals, in their order, and successive calls of \<^verbatim>\<open>next\<close> hand them to the decoder
  in that order, each once, and then end the sequence.
\<close>

theorem next_delivers_plain_elements_in_order:
  assumes "list_all plain_item items" and "list_all gap_char trail"
    and "concat frags = array_text items trail" and "[] \<notin> set frags"
  shows "process_chunks (init frags) frags
           = (None, scan (array_text items trail) (init frags))
         \<and> ready_objs (scan (array_text items trail) (init frags)) = map queued_text items
         \<and> fst (next_calls loads from_json (Suc (length items)) (init frags))
           = map (decode loads from_json) (map queued_text items) @ [Inl StopIteration]"
proof -
  let ?E = "scan (array_text items trail) (init frags)"
  note feed = array_feed [OF assms]
  from array_scan(1) [OF assms(1,2), of frags]
  have q: "ready_objs ?E = map queued_text items" by auto
  have "fst (next_calls loads from_json
               (Suc (length (ready_objs (init frags)) + length (ready_objs ?E))) (init frags))
          = map (decode loads from_json) (ready_objs (init frags) @ ready_objs ?E) @ [Inl StopIteration]"
    by (rule next_calls_lazy [where frags = frags]) (simp_all add: init_def feed [unfolded init_def])
  then have "fst (next_calls loads from_json (Suc (length items)) (init frags))
           = map (decode loads from_json) (map queued_text items) @ [Inl StopIteration]"
    by (simp add: q) (simp add: init_def)
  with feed q show ?thesis by simp
qed

text \<open>The stream \<^verbatim>\<open>[{\"a\": 1}, {\"a\": 2}]\<close> in two fragments, decoded with the model
  of \<^verbatim>\<open>json.loads\<close>.\<close>

theorem next_delivers_plain_elements_in_order_witness:
  \<open>list_all plain_item escaped_items \<and> list_all gap_char []
   \<and> concat escaped_fragments = array_text escaped_items [] \<and> [] \<notin> set escaped_fragments
   \<and> fst (next_calls json_loads accept_all 3 (init escaped_fragments))
       = [Inr (map of_char ''{"a":1}''), Inr (map of_char ''{"a":2}''), Inl StopIteration]\<close>
proof -
  have h1: "list_all plain_item escaped_items"
    by (simp add: escaped_items_def plain_item_def gap_char_def plain_char_def literal_char_def
        whitespace_def dquote_def backslash_def)
  have h2: "list_all gap_char []" by simp
  have h3: "concat escaped_fragments = array_text escaped_items []"
    by (simp add: escaped_fragments_def escaped_items_def array_text_def item_text_def
        object_text_def)
  have h4: "[] \<notin> set escaped_fragments" by (simp add: escaped_fragments_def)
  from next_delivers_plain_elements_in_order [OF h1 h2 h3 h4, of json_loads accept_all]
  have "fst (next_calls json_loads accept_all (Suc (length escaped_items)) (init escaped_fragments))
          = map (decode json_loads accept_all) (map queued_text escaped_items) @ [Inl StopIteration]"
    by blast
  also have "Suc (length escaped_items) = 3" by (simp add: escaped_items_def)
  also have "map (decode json_loads accept_all) (map queued_text escaped_items)
               = [Inr (map of_char ''{\"a\":1}''), Inr (map of_char ''{\"a\":2}'')]"
    by (simp add: escaped_items_def queued_text_def decode_def json_loads_def json_space_def
        dquote_def backslash_def backslash_char_def accept_all_def)
  finally show ?thesis using h1 h2 h3 h4 by simp
qed

text \<open>Claim C1 as first stated fails on the array \<^verbatim>\<open>[{"a":"\""}]\<close>, whose only object
  holds a string with an escaped double quote: the scanner takes the escaped quote for
  the end of the string, never sees the object close, and the first \<^verbatim>\<open>next\<close> ends the
  sequence without having delivered anything. It fails on an array with a space before
  its opening bracket, where the first \<^verbatim>\<open>next\<close> raises; and the text queued for the
  element \<^verbatim>\<open>{"a": 1}\<close> has lost its space.\<close>

theorem escaped_quote_loses_object:
  \<open>fst (iter_next json_loads accept_all (init [''[{"a":"'' @ [backslash] @ ''""}]'']))
     = Inl StopIteration
   \<and> fst (iter_next json_loads accept_all (init ['' [{}]'']))
     = Inl (ValueError ''Can only parse array of JSON objects, instead got  [{}]'')
   \<and> ready_objs (snd (process_chunk (init []) ''[{"a": 1}]'')) = [''{"a":1}'']\<close>
  by (simp add: iter_next_def init_def process_chunk_def check_array_def scan_Cons scan_Nil
      process_char_def dquote_def backslash_def whitespace_def Let_def)

subsection \<open>The depth\<close>

text \<open>
  Claim C9, as the code has it. The depth is a signed integer that nothing keeps from
  going below 0. On the streams of the previous claim, cut into fragments that are not
  empty, no fragment raises, and after every character the depth is at least 0.
\<close>

theorem depth_nonnegative_on_plain_arrays:
  assumes "list_all plain_item items" and "list_all gap_char trail"
    and "concat frags = array_text items trail" and "[] \<notin> set frags"
  shows "fst (process_chunks (init frags) frags) = None
         \<and> (\<forall>n \<le> length (concat frags). 0 \<le> level (scan (take n (concat frags)) (init frags)))"
proof -
  have "process_chunks (init frags) frags = (None, scan (array_text items trail) (init frags))"
    by (rule array_feed [OF assms])
  moreover have "0 \<le> level (scan (take n (concat frags)) (init frags))"
    if "n \<le> length (concat frags)" for n
  proof (cases n)
    case 0
    then show ?thesis by (simp add: scan_Nil init_def)
  next
    case (Suc m)
    with that have m: "m < length (concat frags)" by simp
    then have "depths (concat frags) (init frags) ! m \<in> set (depths (concat frags) (init frags))"
      by (simp add: length_depths)
    with array_scan(3) [OF assms(1,2), of frags]
    have "0 \<le> depths (concat frags) (init frags) ! m" by (simp add: assms(3))
    with m Suc show ?thesis by (simp add: depths_nth)
  qed
  ultimately show ?thesis by simp
qed

text \<open>The stream \<^verbatim>\<open>[{"a":1},{"a":2}]\<close> in two fragments, after its first eight
  characters.\<close>

theorem depth_nonnegative_on_plain_arrays_witness:
  "list_all plain_item plain_items \<and> list_all gap_char []
   \<and> concat plain_fragments = array_text plain_items [] \<and> [] \<notin> set plain_fragments
   \<and> fst (process_chunks (init plain_fragments) plain_fragments) = None
   \<and> 0 \<le> level (scan (take 8 (concat plain_fragments)) (init plain_fragments))"
proof -
  have h1: "list_all plain_item plain_items"
    by (simp add: plain_items_def plain_item_def gap_char_def plain_char_def literal_char_def
        whitespace_def dquote_def)
  have h2: "list_all gap_char []" by simp
  have h3: "concat plain_fragments = array_text plain_items []"
    by (simp add: plain_fragments_def plain_items_def array_text_def item_text_def
        object_text_def)
  have h4: "[] \<notin> set plain_fragments" by (simp add: plain_fragments_def)
  have n: "8 \<le> length (concat plain_fragments)" by (simp add: plain_fragments_def)
  from depth_nonnegative_on_plain_arrays [OF h1 h2 h3 h4] n
  have "fst (process_chunks (init plain_fragments) plain_fragments) = None
        \<and> 0 \<le> level (scan (take 8 (concat plain_fragments)) (init plain_fragments))"
    by blast
  with h1 h2 h3 h4 show ?thesis by blast
qed

text \<open>Claim C9 as first stated fails on the fragment \<^verbatim>\<open>[]]\<close>, which leaves the depth
  at -1.\<close>

theorem depth_negative_after_extra_bracket:
  "level (snd (process_chunks (init []) [''[]]''])) = - 1"
  by (simp add: init_def process_chunk_def check_array_def scan_Cons scan_Nil process_char_def
      dquote_def whitespace_def Let_def)

end
